theory Spec2Isabelle
  imports Complex_Main
begin

section \<open>The track database of \<^verbatim>\<open>VAN_ex/code/Ex4/ex4.py\<close>\<close>

text \<open>
  The exceptions the modelled code can raise. A function that may raise returns
  \<open>error + 'a\<close>, with \<open>Inl\<close> carrying the exception. An exception ends the run
  (\<^verbatim>\<open>run_sequence\<close> has no handler), so the half-updated store it leaves behind is
  never read again and is not part of the result.
\<close>

datatype error = KeyError | IndexError | AttributeError

text \<open>
  The supporters handed to the store are a pair \<^verbatim>\<open>(left_kp, right_kp)\<close> of
  one-dimensional arrays of key-points. The code compares key-points with \<^verbatim>\<open>==\<close> and
  \<^verbatim>\<open>in\<close> only, so the key-point type is a parameter \<open>'k\<close> with HOL equality.
  Frame ids and track ids are Python integers.
\<close>

type_synonym 'k supporters = "'k list \<times> 'k list"

text \<open>
  Class \<^verbatim>\<open>Track\<close>: \<^verbatim>\<open>kp\<close> is a dictionary from frame id to the pair of key-point
  arrays stored for that frame.
\<close>

record 'k Track =
  track_id :: int
  frame_ids :: "int list"
  kp :: "int \<rightharpoonup> 'k supporters"

text \<open>
  Class \<^verbatim>\<open>TracksDB\<close>. Its attributes \<^verbatim>\<open>frame_ids\<close> and \<^verbatim>\<open>track_id\<close> (the id
  counter) carry the prefix \<open>db_\<close> here, since \<^verbatim>\<open>Track\<close> has attributes of the same
  names.
\<close>

record 'k TracksDB =
  tracks :: "int \<rightharpoonup> 'k Track"
  db_frame_ids :: "int list"
  track_ids :: "int list"
  db_track_id :: int

text \<open>\<^verbatim>\<open>TracksDB.__init__\<close>\<close>

definition TracksDB_init :: "'k TracksDB" where
  "TracksDB_init = \<lparr>tracks = Map.empty, db_frame_ids = [], track_ids = [], db_track_id = 0\<rparr>"

subsection \<open>Array helpers\<close>

text \<open>
  \<^verbatim>\<open>np.where(arr == x)[0][0]\<close>: the first position of \<open>x\<close> in the array; reading
  element 0 of an empty result raises IndexError.
\<close>

fun first_index :: "'a list \<Rightarrow> 'a \<Rightarrow> error + nat" where
  "first_index [] x = Inl IndexError"
| "first_index (y # ys) x =
     (if y = x then Inr 0
      else (case first_index ys x of Inl e \<Rightarrow> Inl e | Inr i \<Rightarrow> Inr (Suc i)))"

text \<open>A list comprehension whose element expression may raise: the first exception wins.\<close>

fun map_err :: "('a \<Rightarrow> error + 'b) \<Rightarrow> 'a list \<Rightarrow> error + 'b list" where
  "map_err f [] = Inr []"
| "map_err f (x # xs) =
     (case f x of Inl e \<Rightarrow> Inl e
      | Inr y \<Rightarrow> (case map_err f xs of Inl e \<Rightarrow> Inl e | Inr ys \<Rightarrow> Inr (y # ys)))"

text \<open>A list comprehension whose condition may raise.\<close>

fun filter_err :: "('a \<Rightarrow> error + bool) \<Rightarrow> 'a list \<Rightarrow> error + 'a list" where
  "filter_err p [] = Inr []"
| "filter_err p (x # xs) =
     (case p x of Inl e \<Rightarrow> Inl e
      | Inr b \<Rightarrow> (case filter_err p xs of Inl e \<Rightarrow> Inl e
                  | Inr ys \<Rightarrow> Inr (if b then x # ys else ys)))"

text \<open>
  \<^verbatim>\<open>arr[idx]\<close> with a list of non-negative indices (numpy integer-array indexing):
  a fresh array of the selected elements, IndexError when an index is out of bounds.
\<close>

definition take_indices :: "'a list \<Rightarrow> nat list \<Rightarrow> error + 'a list" where
  "take_indices arr idx =
     (if list_all (\<lambda>i. i < length arr) idx then Inr (map (\<lambda>i. arr ! i) idx)
      else Inl IndexError)"

subsection \<open>\<^verbatim>\<open>Track.add_frame\<close>\<close>

text \<open>
  \<^verbatim>\<open>
  kp_to_keep = [kp for kp in self.kp[self.frame_ids[-1]][0] if kp in curr_kp[0]]
  idx_to_keep = [np.where(curr_kp[0] == kp)[0][0] for kp in kp_to_keep]
  self.kp[frame_id] = next_kp[0][idx_to_keep], next_kp[1][idx_to_keep]
  self.frame_ids.append(frame_id)
  \<close>
\<close>

definition add_frame ::
  "int \<Rightarrow> 'k supporters \<Rightarrow> 'k supporters \<Rightarrow> 'k Track \<Rightarrow> error + 'k Track" where
  "add_frame frame_id curr_kp next_kp t =
     (if frame_ids t = [] then Inl IndexError
      else (case kp t (last (frame_ids t)) of
        None \<Rightarrow> Inl KeyError
      | Some stored \<Rightarrow>
          (let kp_to_keep = filter (\<lambda>k. k \<in> set (fst curr_kp)) (fst stored) in
           case map_err (first_index (fst curr_kp)) kp_to_keep of
             Inl e \<Rightarrow> Inl e
           | Inr idx_to_keep \<Rightarrow>
               (case take_indices (fst next_kp) idx_to_keep of
                  Inl e \<Rightarrow> Inl e
                | Inr l \<Rightarrow>
                    (case take_indices (snd next_kp) idx_to_keep of
                       Inl e \<Rightarrow> Inl e
                     | Inr r \<Rightarrow>
                         Inr (t\<lparr>kp := (kp t)(frame_id \<mapsto> (l, r)),
                                frame_ids := frame_ids t @ [frame_id]\<rparr>))))))"

subsection \<open>\<^verbatim>\<open>TracksDB\<close> queries\<close>

text \<open>
  \<^verbatim>\<open>
  def get_track_ids(self, frame_id):
      return [track_id for track_id in self.track_ids
              if frame_id in self.tracks[track_id].frame_ids]
  \<close>
\<close>

definition has_frame :: "'k TracksDB \<Rightarrow> int \<Rightarrow> int \<Rightarrow> error + bool" where
  "has_frame db frame_id tid =
     (case tracks db tid of None \<Rightarrow> Inl KeyError
      | Some t \<Rightarrow> Inr (frame_id \<in> set (frame_ids t)))"

definition get_track_ids :: "'k TracksDB \<Rightarrow> int \<Rightarrow> error + int list" where
  "get_track_ids db frame_id = filter_err (has_frame db frame_id) (track_ids db)"

text \<open>
  \<^verbatim>\<open>
  def get_feature_locations(self, frame_id, track_id):
      track = self.tracks[track_id]
      frame_ids = track.frame_ids
      if frame_id not in frame_ids:
          return None
      frame_index = frame_ids.index(frame_id)
      kp = track.kp[frame_index]
      return kp.pt
  \<close>
  The dictionary \<^verbatim>\<open>track.kp\<close> is keyed by frame id, and the code reads it at the
  position of the frame in the list. The value found there, if any, is the stored pair
  of arrays, a tuple, which has no attribute \<^verbatim>\<open>pt\<close>: the last line raises
  AttributeError on every value the store holds. The result type is the documented
  triplet \<^verbatim>\<open>(xl, xr, y)\<close>, or \<open>None\<close>.
\<close>

type_synonym observation = "real \<times> real \<times> real"

definition index_of :: "'a list \<Rightarrow> 'a \<Rightarrow> nat" where
  "index_of xs x = length (takeWhile (\<lambda>y. y \<noteq> x) xs)"

definition get_feature_locations ::
  "'k TracksDB \<Rightarrow> int \<Rightarrow> int \<Rightarrow> error + observation option" where
  "get_feature_locations db frame_id tid =
     (case tracks db tid of
        None \<Rightarrow> Inl KeyError
      | Some track \<Rightarrow>
          if frame_id \<notin> set (frame_ids track) then Inr None
          else (let frame_index = index_of (frame_ids track) frame_id in
                case kp track (int frame_index) of
                  None \<Rightarrow> Inl KeyError
                | Some stored \<Rightarrow> Inl AttributeError))"

subsection \<open>\<^verbatim>\<open>TracksDB.extend_tracks\<close>\<close>

text \<open>
  The second filter of \<^verbatim>\<open>extend_tracks\<close>:
  \<^verbatim>\<open>
  any(kp in self.tracks[track_id].kp[frame_id - 1][0] for kp in curr[0]) and
  any(kp in self.tracks[track_id].kp[frame_id - 1][1] for kp in curr[1])
  \<close>
  The dictionary lookups are inside the generators: with an empty left array nothing is
  looked up and the condition is false. Otherwise the first element already reads
  \<^verbatim>\<open>self.tracks[track_id].kp[frame_id - 1]\<close>, which raises KeyError when absent; the
  second conjunct is evaluated only when the first holds, and reads the same entry.
\<close>

definition supported :: "'k TracksDB \<Rightarrow> int \<Rightarrow> 'k supporters \<Rightarrow> int \<Rightarrow> error + bool" where
  "supported db frame_id curr_kp tid =
     (if fst curr_kp = [] then Inr False
      else (case tracks db tid of
        None \<Rightarrow> Inl KeyError
      | Some t \<Rightarrow>
          (case kp t (frame_id - 1) of
             None \<Rightarrow> Inl KeyError
           | Some stored \<Rightarrow>
               Inr (list_ex (\<lambda>k. k \<in> set (fst stored)) (fst curr_kp) \<and>
                    list_ex (\<lambda>k. k \<in> set (snd stored)) (snd curr_kp)))))"

text \<open>
  The loop \<^verbatim>\<open>for track_id in relevant_tracks: self.tracks[track_id].add_frame(...)\<close>,
  which updates the stored tracks in place, one after the other.
\<close>

fun add_frames ::
  "int \<Rightarrow> 'k supporters \<Rightarrow> 'k supporters \<Rightarrow> int list \<Rightarrow> (int \<rightharpoonup> 'k Track)
     \<Rightarrow> error + (int \<rightharpoonup> 'k Track)" where
  "add_frames frame_id curr_kp next_kp [] m = Inr m"
| "add_frames frame_id curr_kp next_kp (tid # tids) m =
     (case m tid of
        None \<Rightarrow> Inl KeyError
      | Some t \<Rightarrow>
          (case add_frame frame_id curr_kp next_kp t of
             Inl e \<Rightarrow> Inl e
           | Inr t' \<Rightarrow> add_frames frame_id curr_kp next_kp tids (m(tid \<mapsto> t'))))"

text \<open>\<^verbatim>\<open>get_new_id\<close>: increments the counter and returns its previous value.\<close>

definition get_new_id :: "'k TracksDB \<Rightarrow> int \<times> 'k TracksDB" where
  "get_new_id db = (db_track_id db, db\<lparr>db_track_id := db_track_id db + 1\<rparr>)"

text \<open>\<^verbatim>\<open>add_new_track\<close>\<close>

definition add_new_track :: "'k Track \<Rightarrow> 'k TracksDB \<Rightarrow> 'k TracksDB" where
  "add_new_track track db =
     db\<lparr>tracks := (tracks db)(track_id track \<mapsto> track),
        db_frame_ids := db_frame_ids db @ frame_ids track,
        track_ids := track_ids db @ [track_id track]\<rparr>"

text \<open>
  \<^verbatim>\<open>
  def extend_tracks(self, frame_id, curr_frame_supporters_kp, next_frame_supporters_kp):
      relevant_tracks = [track_id for track_id in self.track_ids
                         if frame_id - 1 in self.tracks[track_id].frame_ids]
      relevant_tracks = [track_id for track_id in relevant_tracks if any(...) and any(...)]
      for track_id in relevant_tracks:
          track = self.tracks[track_id]
          track.add_frame(frame_id, curr_frame_supporters_kp, next_frame_supporters_kp)
      relevant_kp = {}
      for track_id in relevant_tracks:
          relevant_kp.update(self.tracks[track_id].kp)
      new_matches = (left_kp, right_kp) = next_frame_supporters_kp
      self.add_new_track(Track(self.get_new_id(), [frame_id], {frame_id: new_matches}))
  \<close>
  The dictionary \<^verbatim>\<open>relevant_kp\<close> is filled and never read; filling it cannot raise
  once the loop before it has passed, so it has no counterpart in the model. The
  unpacking of \<^verbatim>\<open>next_frame_supporters_kp\<close> into two names is the pair type.
  The new track gets a fresh frame list and a fresh dictionary, and \<^verbatim>\<open>add_frame\<close>
  stores fresh arrays, so no two stored tracks share a mutable object and the store can
  be a map from ids to track values.
\<close>

definition extend_tracks ::
  "int \<Rightarrow> 'k supporters \<Rightarrow> 'k supporters \<Rightarrow> 'k TracksDB \<Rightarrow> error + 'k TracksDB" where
  "extend_tracks frame_id curr_kp next_kp db =
     (case filter_err (has_frame db (frame_id - 1)) (track_ids db) of
        Inl e \<Rightarrow> Inl e
      | Inr with_prev \<Rightarrow>
          (case filter_err (supported db frame_id curr_kp) with_prev of
             Inl e \<Rightarrow> Inl e
           | Inr relevant_tracks \<Rightarrow>
               (case add_frames frame_id curr_kp next_kp relevant_tracks (tracks db) of
                  Inl e \<Rightarrow> Inl e
                | Inr m \<Rightarrow>
                    (let (new_id, db1) = get_new_id (db\<lparr>tracks := m\<rparr>) in
                     Inr (add_new_track
                            \<lparr>track_id = new_id, frame_ids = [frame_id],
                             kp = [frame_id \<mapsto> next_kp]\<rparr> db1)))))"

text \<open>
  A run of \<^verbatim>\<open>extend_tracks\<close> calls, as the loop of \<^verbatim>\<open>run_sequence\<close> issues them: each
  entry is a frame id with the two supporter pairs of that call, and the first
  exception ends the run.
\<close>

fun extend_all ::
  "(int \<times> 'k supporters \<times> 'k supporters) list \<Rightarrow> 'k TracksDB \<Rightarrow> error + 'k TracksDB" where
  "extend_all [] db = Inr db"
| "extend_all ((frame_id, curr_kp, next_kp) # calls) db =
     (case extend_tracks frame_id curr_kp next_kp db of
        Inl e \<Rightarrow> Inl e
      | Inr db' \<Rightarrow> extend_all calls db')"

text \<open>
  What every store built by \<^verbatim>\<open>extend_tracks\<close> from the empty one satisfies: the list
  of track ids has no repetition and names exactly the stored tracks, every stored id
  is below the counter, and in every track the dictionary \<^verbatim>\<open>kp\<close> has an entry for
  exactly the frames of the (non-empty) frame list.
\<close>

definition store_ok :: "'k TracksDB \<Rightarrow> bool" where
  "store_ok db \<longleftrightarrow>
     distinct (track_ids db) \<and> set (track_ids db) = dom (tracks db) \<and>
     (\<forall>tid\<in>set (track_ids db). tid < db_track_id db) \<and>
     (\<forall>tid t. tracks db tid = Some t \<longrightarrow>
        track_id t = tid \<and> frame_ids t \<noteq> [] \<and> dom (kp t) = set (frame_ids t))"

text \<open>Every frame list of the store is strictly increasing and stays below \<open>f\<close>.\<close>

definition frames_below :: "int \<Rightarrow> 'k TracksDB \<Rightarrow> bool" where
  "frames_below f db \<longleftrightarrow>
     (\<forall>tid t. tracks db tid = Some t \<longrightarrow>
        sorted_wrt (<) (frame_ids t) \<and> (\<forall>g\<in>set (frame_ids t). g < f))"

text \<open>
  Concrete stores, with natural numbers standing for key-points: the store after
  \<^verbatim>\<open>extend_tracks(0, ([1], [2]), ([3], [4]))\<close> on the empty store, and the store after
  a further \<^verbatim>\<open>extend_tracks(1, ([3], [4]), ([5], [6]))\<close>.
\<close>

definition db_one :: "nat TracksDB" where
  "db_one =
     \<lparr>tracks = [0 \<mapsto> \<lparr>track_id = 0, frame_ids = [0], kp = [0 \<mapsto> ([3], [4])]\<rparr>],
      db_frame_ids = [0], track_ids = [0], db_track_id = 1\<rparr>"

definition db_two :: "nat TracksDB" where
  "db_two =
     \<lparr>tracks = [0 \<mapsto> \<lparr>track_id = 0, frame_ids = [0, 1],
                         kp = [0 \<mapsto> ([3], [4]), 1 \<mapsto> ([5], [6])]\<rparr>,
                1 \<mapsto> \<lparr>track_id = 1, frame_ids = [1], kp = [1 \<mapsto> ([5], [6])]\<rparr>],
      db_frame_ids = [0, 1], track_ids = [0, 1], db_track_id = 2\<rparr>"

text \<open>The two calls that build them, as entries of a run.\<close>

definition call_zero :: "int \<times> nat supporters \<times> nat supporters" where
  "call_zero = (0, ([1], [2]), ([3], [4]))"

definition call_one :: "int \<times> nat supporters \<times> nat supporters" where
  "call_one = (1, ([3], [4]), ([5], [6]))"

text \<open>
  The store of the scenario: track A (id 0) spans the frames 0, 1, 2 and track B (id 1)
  the frames 1, 2; both are entered with \<^verbatim>\<open>add_new_track\<close>.
\<close>

definition track_A :: "nat Track" where
  "track_A = \<lparr>track_id = 0, frame_ids = [0, 1, 2],
              kp = [0 \<mapsto> ([10], [11]), 1 \<mapsto> ([12], [13]), 2 \<mapsto> ([14], [15])]\<rparr>"

definition track_B :: "nat Track" where
  "track_B = \<lparr>track_id = 1, frame_ids = [1, 2],
              kp = [1 \<mapsto> ([20], [21]), 2 \<mapsto> ([22], [23])]\<rparr>"

definition scenario_db :: "nat TracksDB" where
  "scenario_db = add_new_track track_B (add_new_track track_A TracksDB_init)"

section \<open>Pose composition of \<^verbatim>\<open>VAN_ex/code/Ex5/ex5.py\<close>\<close>

subsection \<open>\<^verbatim>\<open>relative_to_absolute_poses\<close>\<close>

text \<open>
  \<^verbatim>\<open>
  def relative_to_absolute_poses(cameras, points, init_cams):
      base_camera = cameras[0]
      base_init = init_cams[0]
      abs_points, abs_cameras, abs_init = [], [base_camera], [base_init]
      for bundle_camera, bundle_points, bundle_init in zip(cameras[1:], points, init_cams[1:]):
          base_camera = base_camera.compose(bundle_camera)
          abs_cameras.append(base_camera)
          base_init = base_init.compose(bundle_init)
          abs_init.append(base_init)
          bundle_abs_points = [abs_cameras[-1].transformFrom(point) for point in bundle_points]
          abs_points.extend(bundle_abs_points)
      return np.array(abs_cameras), np.array(abs_points), np.array(abs_init)
  \<close>
  The poses are objects of the optimizer library; the function uses their methods
  \<^verbatim>\<open>compose\<close> and \<^verbatim>\<open>transformFrom\<close> only, which are parameters of the model. The
  loop state is \<^verbatim>\<open>(base_camera, base_init, abs_points, abs_cameras, abs_init)\<close>, and
  the three results are returned in the order of the source.
\<close>

type_synonym ('p, 'q) loop_state = "'p \<times> 'p \<times> 'q list \<times> 'p list \<times> 'p list"

fun compose_loop ::
  "('p \<Rightarrow> 'p \<Rightarrow> 'p) \<Rightarrow> ('p \<Rightarrow> 'q \<Rightarrow> 'q) \<Rightarrow> ('p \<times> 'q list \<times> 'p) list
     \<Rightarrow> ('p, 'q) loop_state \<Rightarrow> ('p, 'q) loop_state" where
  "compose_loop compose transformFrom [] st = st"
| "compose_loop compose transformFrom ((bundle_camera, bundle_points, bundle_init) # rest)
       (base_camera, base_init, abs_points, abs_cameras, abs_init) =
     (let base_camera' = compose base_camera bundle_camera;
          abs_cameras' = abs_cameras @ [base_camera'];
          base_init' = compose base_init bundle_init;
          abs_init' = abs_init @ [base_init'];
          bundle_abs_points = map (transformFrom (last abs_cameras')) bundle_points
      in compose_loop compose transformFrom rest
           (base_camera', base_init', abs_points @ bundle_abs_points, abs_cameras', abs_init'))"

definition relative_to_absolute_poses ::
  "('p \<Rightarrow> 'p \<Rightarrow> 'p) \<Rightarrow> ('p \<Rightarrow> 'q \<Rightarrow> 'q) \<Rightarrow> 'p list \<Rightarrow> 'q list list \<Rightarrow> 'p list
     \<Rightarrow> error + ('p list \<times> 'q list \<times> 'p list)" where
  "relative_to_absolute_poses compose transformFrom cameras points init_cams =
     (case cameras of
        [] \<Rightarrow> Inl IndexError
      | base_camera # cameras_tl \<Rightarrow>
          (case init_cams of
             [] \<Rightarrow> Inl IndexError
           | base_init # init_tl \<Rightarrow>
               (case compose_loop compose transformFrom (zip cameras_tl (zip points init_tl))
                       (base_camera, base_init, [], [base_camera], [base_init]) of
                  (_, _, abs_points, abs_cameras, abs_init) \<Rightarrow>
                    Inr (abs_cameras, abs_points, abs_init))))"

section \<open>Properties of the track database\<close>

subsection \<open>Comprehensions and array indexing\<close>

lemma filter_err_Inr:
  "filter_err p xs = Inr ys \<Longrightarrow> ys = filter (\<lambda>x. p x = Inr True) xs \<and> (\<forall>x\<in>set xs. \<exists>b. p x = Inr b)"
  by (induction xs arbitrary: ys) (auto split: sum.splits if_splits)

lemma filter_err_total:
  "(\<forall>x\<in>set xs. \<exists>b. p x = Inr b) \<Longrightarrow> filter_err p xs = Inr (filter (\<lambda>x. p x = Inr True) xs)"
  by (induction xs) (auto split: sum.splits)

lemma first_index_Inr:
  "first_index xs x = Inr i \<Longrightarrow> i < length xs \<and> xs ! i = x"
  by (induction xs arbitrary: i) (auto split: if_splits sum.splits)

lemma first_index_total:
  "x \<in> set xs \<Longrightarrow> \<exists>i. first_index xs x = Inr i"
  by (induction xs) (auto split: sum.splits)

lemma map_err_Inr:
  "map_err f xs = Inr ys \<Longrightarrow> length ys = length xs \<and> (\<forall>i<length xs. f (xs ! i) = Inr (ys ! i))"
proof (induction xs arbitrary: ys)
  case Nil
  then show ?case by simp
next
  case (Cons x xs)
  then show ?case
    by (auto split: sum.splits simp: nth_Cons split: nat.splits)
qed

lemma map_err_total:
  "(\<forall>x\<in>set xs. \<exists>y. f x = Inr y) \<Longrightarrow> \<exists>ys. map_err f xs = Inr ys"
  by (induction xs) (auto split: sum.splits)

lemma map_err_first_index_bound:
  assumes "map_err (first_index c) ks = Inr idx"
  shows "\<forall>i\<in>set idx. i < length c"
proof -
  from map_err_Inr [OF assms] have len: "length idx = length ks"
    and nth: "\<forall>i<length ks. first_index c (ks ! i) = Inr (idx ! i)" by auto
  show ?thesis
  proof
    fix i assume "i \<in> set idx"
    then obtain j where "j < length idx" "idx ! j = i" by (auto simp: in_set_conv_nth)
    with len nth have "first_index c (ks ! j) = Inr i" by auto
    then show "i < length c" using first_index_Inr by fastforce
  qed
qed

lemma take_indices_total:
  "\<forall>i\<in>set idx. i < length arr \<Longrightarrow> \<exists>ys. take_indices arr idx = Inr ys"
  by (simp add: take_indices_def list_all_iff)

lemma add_frame_Inr:
  assumes "add_frame f c n t = Inr t'"
  shows "frame_ids t' = frame_ids t @ [f]"
    and "track_id t' = track_id t"
    and "g \<noteq> f \<Longrightarrow> kp t' g = kp t g"
    and "dom (kp t') = insert f (dom (kp t))"
  using assms
  by (auto simp: add_frame_def Let_def split: if_splits option.splits sum.splits)

lemma add_frame_total:
  assumes "frame_ids t \<noteq> []" "last (frame_ids t) \<in> dom (kp t)"
    and "length (fst c) \<le> length (fst n)" "length (fst c) \<le> length (snd n)"
  shows "\<exists>t'. add_frame f c n t = Inr t'"
proof -
  from assms(2) obtain stored where st: "kp t (last (frame_ids t)) = Some stored" by auto
  define ks where "ks = filter (\<lambda>k. k \<in> set (fst c)) (fst stored)"
  have "\<forall>k\<in>set ks. \<exists>i. first_index (fst c) k = Inr i"
    by (auto simp: ks_def first_index_total)
  then obtain idx where idx: "map_err (first_index (fst c)) ks = Inr idx"
    using map_err_total by blast
  have b: "\<forall>i\<in>set idx. i < length (fst c)"
    using map_err_first_index_bound [OF idx] .
  from b assms(3) have "\<forall>i\<in>set idx. i < length (fst n)" by auto
  then obtain l where l: "take_indices (fst n) idx = Inr l" using take_indices_total by blast
  from b assms(4) have "\<forall>i\<in>set idx. i < length (snd n)" by auto
  then obtain r where r: "take_indices (snd n) idx = Inr r" using take_indices_total by blast
  show ?thesis
    using assms(1) st idx l r by (simp add: add_frame_def Let_def ks_def)
qed

lemma add_frames_other:
  "add_frames f c n tids m = Inr m' \<Longrightarrow> tid \<notin> set tids \<Longrightarrow> m' tid = m tid"
  by (induction tids arbitrary: m) (auto split: option.splits sum.splits)

lemma add_frames_member:
  "add_frames f c n tids m = Inr m' \<Longrightarrow> distinct tids \<Longrightarrow> tid \<in> set tids \<Longrightarrow>
     \<exists>t t'. m tid = Some t \<and> add_frame f c n t = Inr t' \<and> m' tid = Some t'"
proof (induction tids arbitrary: m)
  case Nil
  then show ?case by simp
next
  case (Cons a tids)
  from Cons.prems(1) obtain t t' where a: "m a = Some t" "add_frame f c n t = Inr t'"
    and rest: "add_frames f c n tids (m(a \<mapsto> t')) = Inr m'"
    by (auto split: option.splits sum.splits)
  show ?case
  proof (cases "tid = a")
    case True
    with Cons.prems(2) have "tid \<notin> set tids" by simp
    from add_frames_other [OF rest this] True a show ?thesis by simp
  next
    case False
    with Cons.prems have "tid \<in> set tids" "distinct tids" by auto
    from Cons.IH [OF rest this(2) this(1)] False show ?thesis by simp
  qed
qed

lemma add_frames_total:
  "distinct tids \<Longrightarrow>
   (\<forall>tid\<in>set tids. \<exists>t t'. m tid = Some t \<and> add_frame f c n t = Inr t') \<Longrightarrow>
   \<exists>m'. add_frames f c n tids m = Inr m'"
proof (induction tids arbitrary: m)
  case Nil
  then show ?case by simp
next
  case (Cons a tids)
  from Cons.prems(2) obtain t t' where a: "m a = Some t" "add_frame f c n t = Inr t'"
    by auto
  have d: "distinct tids" and na: "a \<notin> set tids" using Cons.prems(1) by auto
  have "\<forall>tid\<in>set tids. \<exists>t u. (m(a \<mapsto> t')) tid = Some t \<and> add_frame f c n t = Inr u"
    using Cons.prems(2) na by auto
  then have "\<exists>m'. add_frames f c n tids (m(a \<mapsto> t')) = Inr m'"
    by (rule Cons.IH [OF d])
  with a show ?case by simp
qed

lemma add_frames_dom:
  "add_frames f c n tids m = Inr m' \<Longrightarrow> dom m' = dom m"
proof (induction tids arbitrary: m)
  case Nil
  then show ?case by simp
next
  case (Cons a tids)
  from Cons.prems obtain t t' where a: "m a = Some t"
    and rest: "add_frames f c n tids (m(a \<mapsto> t')) = Inr m'"
    by (auto split: option.splits sum.splits)
  from Cons.IH [OF rest] a show ?case by (auto split: if_splits)
qed

subsection \<open>The two concrete stores\<close>

lemma extend_first: "extend_tracks 0 ([1], [2]) ([3], [4]) TracksDB_init = Inr db_one"
  by (simp add: extend_tracks_def TracksDB_init_def get_new_id_def add_new_track_def db_one_def)

lemma extend_second: "extend_tracks 1 ([3], [4]) ([5], [6]) db_one = Inr db_two"
  by (simp add: extend_tracks_def db_one_def db_two_def get_new_id_def add_new_track_def
      has_frame_def supported_def add_frame_def take_indices_def fun_upd_twist)

lemma run_one: "extend_all [call_zero] TracksDB_init = Inr db_one"
  by (simp only: call_zero_def extend_all.simps extend_first sum.case)

lemma run_two: "extend_all [call_zero, call_one] TracksDB_init = Inr db_two"
  by (simp only: call_zero_def call_one_def extend_all.simps extend_first extend_second sum.case)

subsection \<open>The effect of one call of \<^verbatim>\<open>extend_tracks\<close>\<close>

lemma extend_tracks_InrE:
  assumes "extend_tracks f c n db = Inr db'"
  obtains rel m where
    "rel = filter (\<lambda>x. supported db f c x = Inr True)
             (filter (\<lambda>x. has_frame db (f - 1) x = Inr True) (track_ids db))"
    and "add_frames f c n rel (tracks db) = Inr m"
    and "db' = \<lparr>tracks = m(db_track_id db \<mapsto>
                     \<lparr>track_id = db_track_id db, frame_ids = [f], kp = [f \<mapsto> n]\<rparr>),
                 db_frame_ids = db_frame_ids db @ [f],
                 track_ids = track_ids db @ [db_track_id db],
                 db_track_id = db_track_id db + 1\<rparr>"
proof -
  from assms obtain w rel m where w: "filter_err (has_frame db (f - 1)) (track_ids db) = Inr w"
    and r: "filter_err (supported db f c) w = Inr rel"
    and m: "add_frames f c n rel (tracks db) = Inr m"
    and d: "db' = add_new_track \<lparr>track_id = db_track_id db, frame_ids = [f], kp = [f \<mapsto> n]\<rparr>
                    (db\<lparr>tracks := m, db_track_id := db_track_id db + 1\<rparr>)"
    by (auto simp: extend_tracks_def get_new_id_def split: sum.splits)
  from filter_err_Inr [OF w] filter_err_Inr [OF r]
  have "rel = filter (\<lambda>x. supported db f c x = Inr True)
             (filter (\<lambda>x. has_frame db (f - 1) x = Inr True) (track_ids db))" by simp
  moreover from d have "db' = \<lparr>tracks = m(db_track_id db \<mapsto>
                     \<lparr>track_id = db_track_id db, frame_ids = [f], kp = [f \<mapsto> n]\<rparr>),
                 db_frame_ids = db_frame_ids db @ [f],
                 track_ids = track_ids db @ [db_track_id db],
                 db_track_id = db_track_id db + 1\<rparr>"
    by (simp add: add_new_track_def)
  ultimately show ?thesis using m that by blast
qed

lemma extend_tracks_fields:
  assumes "extend_tracks f c n db = Inr db'"
  shows "db_track_id db' = db_track_id db + 1"
    and "track_ids db' = track_ids db @ [db_track_id db]"
    and "db_frame_ids db' = db_frame_ids db @ [f]"
    and "tracks db' (db_track_id db) =
           Some \<lparr>track_id = db_track_id db, frame_ids = [f], kp = [f \<mapsto> n]\<rparr>"
    and "dom (tracks db') = insert (db_track_id db) (dom (tracks db))"
proof -
  from assms obtain rel m where m: "add_frames f c n rel (tracks db) = Inr m"
    and d: "db' = \<lparr>tracks = m(db_track_id db \<mapsto>
                     \<lparr>track_id = db_track_id db, frame_ids = [f], kp = [f \<mapsto> n]\<rparr>),
                 db_frame_ids = db_frame_ids db @ [f],
                 track_ids = track_ids db @ [db_track_id db],
                 db_track_id = db_track_id db + 1\<rparr>"
    by (rule extend_tracks_InrE)
  show "db_track_id db' = db_track_id db + 1" "track_ids db' = track_ids db @ [db_track_id db]"
    "db_frame_ids db' = db_frame_ids db @ [f]"
    "tracks db' (db_track_id db) =
           Some \<lparr>track_id = db_track_id db, frame_ids = [f], kp = [f \<mapsto> n]\<rparr>"
    by (simp_all add: d)
  show "dom (tracks db') = insert (db_track_id db) (dom (tracks db))"
    using add_frames_dom [OF m] by (simp add: d)
qed

lemma extend_tracks_old_track:
  assumes e: "extend_tracks f c n db = Inr db'" and d: "distinct (track_ids db)"
    and t: "tracks db tid = Some t" and fresh: "tid \<noteq> db_track_id db"
  shows "\<exists>t'. tracks db' tid = Some t' \<and>
           (t' = t \<or> (f - 1 \<in> set (frame_ids t) \<and> add_frame f c n t = Inr t'))"
proof -
  from e obtain rel m where
    rel: "rel = filter (\<lambda>x. supported db f c x = Inr True)
             (filter (\<lambda>x. has_frame db (f - 1) x = Inr True) (track_ids db))"
    and m: "add_frames f c n rel (tracks db) = Inr m"
    and d': "db' = \<lparr>tracks = m(db_track_id db \<mapsto>
                     \<lparr>track_id = db_track_id db, frame_ids = [f], kp = [f \<mapsto> n]\<rparr>),
                 db_frame_ids = db_frame_ids db @ [f],
                 track_ids = track_ids db @ [db_track_id db],
                 db_track_id = db_track_id db + 1\<rparr>"
    by (rule extend_tracks_InrE)
  have dr: "distinct rel" using d by (simp add: rel)
  have eq: "tracks db' tid = m tid" using fresh by (simp add: d')
  show ?thesis
  proof (cases "tid \<in> set rel")
    case True
    from add_frames_member [OF m dr True] t obtain t' where
      "add_frame f c n t = Inr t'" "m tid = Some t'" by auto
    moreover from True have "has_frame db (f - 1) tid = Inr True" by (simp add: rel)
    with t have "f - 1 \<in> set (frame_ids t)" by (simp add: has_frame_def)
    ultimately show ?thesis using eq by simp
  next
    case False
    from add_frames_other [OF m False] t eq show ?thesis by simp
  qed
qed

lemma store_ok_init: "store_ok TracksDB_init"
  by (simp add: store_ok_def TracksDB_init_def)

lemma store_ok_extend_tracks:
  assumes ok: "store_ok db" and e: "extend_tracks f c n db = Inr db'"
  shows "store_ok db'"
proof -
  note F = extend_tracks_fields [OF e]
  from ok have d: "distinct (track_ids db)" and sd: "set (track_ids db) = dom (tracks db)"
    and lt: "\<forall>tid\<in>set (track_ids db). tid < db_track_id db"
    and tr: "\<And>tid t. tracks db tid = Some t \<Longrightarrow>
        track_id t = tid \<and> frame_ids t \<noteq> [] \<and> dom (kp t) = set (frame_ids t)"
    by (auto simp: store_ok_def)
  have fresh: "db_track_id db \<notin> set (track_ids db)" using lt by auto
  have 1: "distinct (track_ids db')" using d fresh by (simp add: F)
  have 2: "set (track_ids db') = dom (tracks db')" using sd by (simp add: F)
  have 3: "\<forall>tid\<in>set (track_ids db'). tid < db_track_id db'" using lt by (auto simp: F)
  have 4: "track_id t' = tid \<and> frame_ids t' \<noteq> [] \<and> dom (kp t') = set (frame_ids t')"
    if t': "tracks db' tid = Some t'" for tid t'
  proof (cases "tid = db_track_id db")
    case True
    with t' F(4) show ?thesis by (auto split: if_splits)
  next
    case False
    from t' have "tid \<in> dom (tracks db')" by auto
    with False F(5) obtain t where t: "tracks db tid = Some t" by auto
    from extend_tracks_old_track [OF e d t False] t'
    have "t' = t \<or> add_frame f c n t = Inr t'" by auto
    then show ?thesis
    proof
      assume "t' = t"
      with tr [OF t] show ?thesis by simp
    next
      assume a: "add_frame f c n t = Inr t'"
      from add_frame_Inr(1,2,4) [OF a] tr [OF t] show ?thesis by simp
    qed
  qed
  from 1 2 3 4 show ?thesis unfolding store_ok_def by blast
qed

lemma store_ok_extend_all:
  "store_ok db \<Longrightarrow> extend_all calls db = Inr db' \<Longrightarrow> store_ok db'"
proof (induction calls arbitrary: db)
  case Nil
  then show ?case by simp
next
  case (Cons call calls)
  obtain f c n where call: "call = (f, c, n)" by (cases call) auto
  from Cons.prems(2) obtain db1 where 1: "extend_tracks f c n db = Inr db1"
    and 2: "extend_all calls db1 = Inr db'"
    by (auto simp: call split: sum.splits)
  from Cons.IH [OF store_ok_extend_tracks [OF Cons.prems(1) 1] 2] show ?case .
qed

lemma store_ok_fresh:
  "store_ok db \<Longrightarrow> tracks db (db_track_id db) = None"
  unfolding store_ok_def by (metis domIff less_irrefl)

lemma extend_all_counter:
  "extend_all calls db = Inr db' \<Longrightarrow>
     db_track_id db' = db_track_id db + int (length calls) \<and>
     track_ids db' = track_ids db @ map (\<lambda>i. db_track_id db + int i) [0..<length calls]"
proof (induction calls arbitrary: db)
  case Nil
  then show ?case by simp
next
  case (Cons call calls)
  obtain f c n where call: "call = (f, c, n)" by (cases call) auto
  from Cons.prems obtain db1 where 1: "extend_tracks f c n db = Inr db1"
    and 2: "extend_all calls db1 = Inr db'"
    by (auto simp: call split: sum.splits)
  note F = extend_tracks_fields(1,2) [OF 1]
  have "map (\<lambda>i. db_track_id db + int i) [0..<Suc (length calls)] =
        db_track_id db # map (\<lambda>i. db_track_id db + 1 + int i) [0..<length calls]"
    by (simp add: upt_conv_Cons map_Suc_upt [symmetric] del: upt_Suc)
  with Cons.IH [OF 2] show ?case by (simp add: F)
qed

subsection \<open>Runs of \<^verbatim>\<open>extend_tracks\<close>: frame lists and the append-only law\<close>

lemma extend_all_append:
  "extend_all (xs @ ys) db = Inr db'' \<Longrightarrow>
     \<exists>db'. extend_all xs db = Inr db' \<and> extend_all ys db' = Inr db''"
proof (induction xs arbitrary: db)
  case Nil
  then show ?case by simp
next
  case (Cons call xs)
  obtain f c n where call: "call = (f, c, n)" by (cases call) auto
  from Cons.prems obtain db1 where 1: "extend_tracks f c n db = Inr db1"
    and 2: "extend_all (xs @ ys) db1 = Inr db''"
    by (auto simp: call split: sum.splits)
  from Cons.IH [OF 2] 1 show ?case by (simp add: call)
qed

lemma frames_below_init: "frames_below f TracksDB_init"
  by (simp add: frames_below_def TracksDB_init_def)

lemma frames_below_mono: "frames_below f db \<Longrightarrow> f \<le> g \<Longrightarrow> frames_below g db"
  unfolding frames_below_def by fastforce

lemma frames_below_extend_tracks:
  assumes ok: "store_ok db" and fb: "frames_below f db"
    and e: "extend_tracks f c n db = Inr db'"
  shows "frames_below (f + 1) db'"
  unfolding frames_below_def
proof (intro allI impI)
  fix tid t' assume t': "tracks db' tid = Some t'"
  note F = extend_tracks_fields [OF e]
  from ok have d: "distinct (track_ids db)" by (simp add: store_ok_def)
  show "sorted_wrt (<) (frame_ids t') \<and> (\<forall>g\<in>set (frame_ids t'). g < f + 1)"
  proof (cases "tid = db_track_id db")
    case True
    with t' F(4) show ?thesis by auto
  next
    case False
    from t' have "tid \<in> dom (tracks db')" by auto
    with False F(5) obtain t where t: "tracks db tid = Some t" by auto
    from fb t have s: "sorted_wrt (<) (frame_ids t)" and b: "\<forall>g\<in>set (frame_ids t). g < f"
      by (auto simp: frames_below_def)
    from extend_tracks_old_track [OF e d t False] t'
    have "t' = t \<or> add_frame f c n t = Inr t'" by auto
    then show ?thesis
    proof
      assume "t' = t"
      with s b show ?thesis by auto
    next
      assume a: "add_frame f c n t = Inr t'"
      from add_frame_Inr(1) [OF a] s b show ?thesis
        by (auto simp: sorted_wrt_append)
    qed
  qed
qed

lemma frames_below_extend_all:
  "store_ok db \<Longrightarrow> frames_below f0 db \<Longrightarrow> sorted_wrt (<) (map fst calls) \<Longrightarrow>
   \<forall>call\<in>set calls. f0 \<le> fst call \<Longrightarrow> extend_all calls db = Inr db' \<Longrightarrow>
   \<exists>g. frames_below g db'"
proof (induction calls arbitrary: db f0)
  case Nil
  then show ?case by auto
next
  case (Cons call calls)
  obtain f c n where call: "call = (f, c, n)" by (cases call) auto
  from Cons.prems(5) obtain db1 where 1: "extend_tracks f c n db = Inr db1"
    and 2: "extend_all calls db1 = Inr db'"
    by (auto simp: call split: sum.splits)
  from Cons.prems(4) have "f0 \<le> f" by (simp add: call)
  from frames_below_mono [OF Cons.prems(2) this] have "frames_below f db" .
  from frames_below_extend_tracks [OF Cons.prems(1) this 1] have fb: "frames_below (f + 1) db1" .
  have ok: "store_ok db1" using store_ok_extend_tracks [OF Cons.prems(1) 1] .
  have s: "sorted_wrt (<) (map fst calls)" using Cons.prems(3) by simp
  have "\<forall>call\<in>set calls. f + 1 \<le> fst call" using Cons.prems(3) by (auto simp: call)
  from Cons.IH [OF ok fb s this 2] show ?case .
qed

lemma strict_sorted_distinct: "sorted_wrt (<) (xs :: int list) \<Longrightarrow> distinct xs"
  by (induction xs) auto

text \<open>
  Claim C4: at every point of an ingestion whose calls of \<^verbatim>\<open>extend_tracks\<close> have
  strictly increasing frame ids, the frame list of every stored track is strictly
  increasing and has no duplicate. The run starts from the empty store; \<open>calls\<close> is
  any prefix of it, so the store after \<open>calls\<close> is any intermediate store of the run,
  and the last one when \<open>later\<close> is empty.
\<close>

theorem frame_ids_strictly_increasing:
  assumes run: "extend_all (calls @ later) TracksDB_init = Inr final"
    and inc: "sorted_wrt (<) (map fst (calls @ later))"
  shows "\<exists>db. extend_all calls TracksDB_init = Inr db \<and>
           (\<forall>tid t. tracks db tid = Some t \<longrightarrow>
              sorted_wrt (<) (frame_ids t) \<and> distinct (frame_ids t))"
proof -
  from extend_all_append [OF run] obtain db where
    db: "extend_all calls (TracksDB_init :: 'a TracksDB) = Inr db" by blast
  define f0 where "f0 = (case calls of [] \<Rightarrow> 0 | call # _ \<Rightarrow> fst call)"
  from inc have s: "sorted_wrt (<) (map fst calls)" by (simp add: sorted_wrt_append)
  then have "\<forall>call\<in>set calls. f0 \<le> fst call"
    by (cases calls) (auto simp: f0_def)
  from frames_below_extend_all [OF store_ok_init frames_below_init s this db]
  obtain g where "frames_below g db" by blast
  then have "\<forall>tid t. tracks db tid = Some t \<longrightarrow>
              sorted_wrt (<) (frame_ids t) \<and> distinct (frame_ids t)"
    by (auto simp: frames_below_def strict_sorted_distinct)
  with db show ?thesis by blast
qed

theorem frame_ids_strictly_increasing_witness:
  "extend_all ([call_zero] @ [call_one]) TracksDB_init = Inr db_two \<and>
   sorted_wrt (<) (map fst ([call_zero] @ [call_one])) \<and>
   (\<exists>db. extend_all [call_zero] TracksDB_init = Inr db \<and>
           (\<forall>tid t. tracks db tid = Some t \<longrightarrow>
              sorted_wrt (<) (frame_ids t) \<and> distinct (frame_ids t)))"
proof -
  have run: "extend_all ([call_zero] @ [call_one]) TracksDB_init = Inr db_two"
    using run_two by simp
  have inc: "sorted_wrt (<) (map fst ([call_zero] @ [call_one]))"
    by (simp add: call_zero_def call_one_def)
  from frame_ids_strictly_increasing [OF run inc] run inc show ?thesis by blast
qed

text \<open>
  Claim C5 (append-only law): on a store built by ingestion, a call of
  \<^verbatim>\<open>extend_tracks\<close> with frame id \<open>f\<close> keeps every track that was stored, leaves
  its observation at every frame id other than \<open>f\<close> as it was (so at every frame id
  below \<open>f\<close>), and either keeps its frame list or appends \<open>f\<close> to it.
\<close>

theorem extend_tracks_append_only:
  assumes run: "extend_all calls TracksDB_init = Inr db"
    and e: "extend_tracks f c n db = Inr db'"
    and t: "tracks db tid = Some t"
  shows "\<exists>t'. tracks db' tid = Some t' \<and>
           (\<forall>g. g \<noteq> f \<longrightarrow> kp t' g = kp t g) \<and>
           (frame_ids t' = frame_ids t \<or> frame_ids t' = frame_ids t @ [f])"
proof -
  have ok: "store_ok db" using store_ok_extend_all [OF store_ok_init run] .
  then have d: "distinct (track_ids db)" by (simp add: store_ok_def)
  from store_ok_fresh [OF ok] t have fresh: "tid \<noteq> db_track_id db" by auto
  from extend_tracks_old_track [OF e d t fresh] obtain t' where
    t': "tracks db' tid = Some t'" and c: "t' = t \<or> add_frame f c n t = Inr t'" by auto
  from c have "(\<forall>g. g \<noteq> f \<longrightarrow> kp t' g = kp t g) \<and>
           (frame_ids t' = frame_ids t \<or> frame_ids t' = frame_ids t @ [f])"
  proof
    assume "t' = t"
    then show ?thesis by simp
  next
    assume a: "add_frame f c n t = Inr t'"
    from add_frame_Inr(1) [OF a] add_frame_Inr(3) [OF a] show ?thesis by simp
  qed
  with t' show ?thesis by blast
qed

theorem extend_tracks_append_only_witness:
  "extend_all [call_zero] TracksDB_init = Inr db_one \<and>
   extend_tracks 1 ([3], [4]) ([5], [6]) db_one = Inr db_two \<and>
   tracks db_one 0 = Some \<lparr>track_id = 0, frame_ids = [0], kp = [0 \<mapsto> ([3], [4])]\<rparr> \<and>
   (\<exists>t'. tracks db_two 0 = Some t' \<and>
           (\<forall>g. g \<noteq> 1 \<longrightarrow> kp t' g = [0 \<mapsto> ([3], [4])] g) \<and>
           (frame_ids t' = [0] \<or> frame_ids t' = [0] @ [1]))"
proof -
  have t: "tracks db_one 0 = Some \<lparr>track_id = 0, frame_ids = [0], kp = [0 \<mapsto> ([3], [4])]\<rparr>"
    by (simp add: db_one_def)
  from extend_tracks_append_only [OF run_one extend_second t] run_one extend_second t
  show ?thesis by simp
qed

subsection \<open>The new track of a call\<close>

lemma extend_tracks_total:
  assumes ok: "store_ok db"
    and l: "length (fst c) \<le> length (fst n)" and r: "length (fst c) \<le> length (snd n)"
  shows "\<exists>db'. extend_tracks f c n db = Inr db'"
proof -
  from ok have d: "distinct (track_ids db)" and sd: "set (track_ids db) = dom (tracks db)"
    and tr: "\<And>tid t. tracks db tid = Some t \<Longrightarrow>
        frame_ids t \<noteq> [] \<and> dom (kp t) = set (frame_ids t)"
    by (auto simp: store_ok_def)
  define w where "w = filter (\<lambda>x. has_frame db (f - 1) x = Inr True) (track_ids db)"
  define rel where "rel = filter (\<lambda>x. supported db f c x = Inr True) w"
  have "\<forall>x\<in>set (track_ids db). \<exists>b. has_frame db (f - 1) x = Inr b"
    using sd by (auto simp: has_frame_def split: option.splits)
  from filter_err_total [OF this]
  have 1: "filter_err (has_frame db (f - 1)) (track_ids db) = Inr w" by (simp add: w_def)
  have prev: "\<exists>t. tracks db x = Some t \<and> f - 1 \<in> set (frame_ids t)" if "x \<in> set w" for x
    using that by (auto simp: w_def has_frame_def split: option.splits)
  have "\<forall>x\<in>set w. \<exists>b. supported db f c x = Inr b"
  proof
    fix x assume "x \<in> set w"
    from prev [OF this] obtain t where t: "tracks db x = Some t" "f - 1 \<in> set (frame_ids t)"
      by blast
    with tr [OF t(1)] have "f - 1 \<in> dom (kp t)" by simp
    then show "\<exists>b. supported db f c x = Inr b"
      using t(1) by (auto simp: supported_def)
  qed
  from filter_err_total [OF this]
  have 2: "filter_err (supported db f c) w = Inr rel" by (simp add: rel_def)
  have dr: "distinct rel" using d by (simp add: rel_def w_def)
  have "\<forall>tid\<in>set rel. \<exists>t t'. tracks db tid = Some t \<and> add_frame f c n t = Inr t'"
  proof
    fix tid assume "tid \<in> set rel"
    then have "tid \<in> set w" by (simp add: rel_def)
    from prev [OF this] obtain t where t: "tracks db tid = Some t" by blast
    from tr [OF t] have "frame_ids t \<noteq> []" "last (frame_ids t) \<in> dom (kp t)" by auto
    from add_frame_total [OF this l r] t
    show "\<exists>t t'. tracks db tid = Some t \<and> add_frame f c n t = Inr t'" by blast
  qed
  from add_frames_total [OF dr this] obtain m where
    3: "add_frames f c n rel (tracks db) = Inr m" by blast
  show ?thesis
    by (simp add: extend_tracks_def 1 2 3 get_new_id_def)
qed

text \<open>
  Claim C9: on a store built by a run of \<^verbatim>\<open>extend_tracks\<close> calls from the empty
  store, every call that returns has created exactly one new track: its id is the
  value of the counter before the call (an id no stored track had), its only frame is
  the frame id of the call and its observations are the whole pair of next-frame
  supporters; the counter has grown by one, and the ids of the store are
  \<open>0, 1, \<dots>\<close> without a gap, one per call. The call does return whenever the
  next-frame arrays are at least as long as the left current-frame array, in particular
  for empty supporter arrays.
\<close>

theorem extend_tracks_one_new_track:
  assumes run: "extend_all calls TracksDB_init = Inr db"
  shows "(length (fst c) \<le> length (fst n) \<and> length (fst c) \<le> length (snd n) \<longrightarrow>
            (\<exists>db'. extend_tracks f c n db = Inr db')) \<and>
         (\<forall>db'. extend_tracks f c n db = Inr db' \<longrightarrow>
            db_track_id db = int (length calls) \<and>
            db_track_id db' = db_track_id db + 1 \<and>
            tracks db (db_track_id db) = None \<and>
            tracks db' (db_track_id db) =
              Some \<lparr>track_id = db_track_id db, frame_ids = [f], kp = [f \<mapsto> n]\<rparr> \<and>
            dom (tracks db') = insert (db_track_id db) (dom (tracks db)) \<and>
            track_ids db' = map int [0..<length calls + 1])"
proof -
  have ok: "store_ok db" using store_ok_extend_all [OF store_ok_init run] .
  from extend_all_counter [OF run]
  have ctr: "db_track_id db = int (length calls)"
    and ids: "track_ids db = map int [0..<length calls]"
    by (simp_all add: TracksDB_init_def)
  have "db_track_id db = int (length calls) \<and>
            db_track_id db' = db_track_id db + 1 \<and>
            tracks db (db_track_id db) = None \<and>
            tracks db' (db_track_id db) =
              Some \<lparr>track_id = db_track_id db, frame_ids = [f], kp = [f \<mapsto> n]\<rparr> \<and>
            dom (tracks db') = insert (db_track_id db) (dom (tracks db)) \<and>
            track_ids db' = map int [0..<length calls + 1]"
    if e: "extend_tracks f c n db = Inr db'" for db'
    using extend_tracks_fields [OF e] store_ok_fresh [OF ok] ctr ids by simp
  with extend_tracks_total [OF ok] show ?thesis by blast
qed

theorem extend_tracks_one_new_track_witness:
  "extend_all [call_zero] TracksDB_init = Inr db_one \<and>
   length (fst ([]::nat list, []::nat list)) \<le> length (fst ([]::nat list, []::nat list)) \<and>
   length (fst ([]::nat list, []::nat list)) \<le> length (snd ([]::nat list, []::nat list)) \<and>
   (\<exists>db'. extend_tracks 1 ([], []) ([], []) db_one = Inr db') \<and>
   extend_tracks 1 ([], []) ([], []) db_one =
     Inr (db_one\<lparr>tracks := (tracks db_one)(1 \<mapsto> \<lparr>track_id = 1, frame_ids = [1],
                                                   kp = [1 \<mapsto> ([], [])]\<rparr>),
                 db_frame_ids := [0, 1], track_ids := [0, 1], db_track_id := 2\<rparr>) \<and>
   extend_tracks 1 ([3], [4]) ([5], [6]) db_one = Inr db_two \<and>
   db_track_id db_one = int (length [call_zero]) \<and>
   db_track_id db_two = db_track_id db_one + 1 \<and>
   tracks db_one (db_track_id db_one) = None \<and>
   tracks db_two (db_track_id db_one) =
     Some \<lparr>track_id = db_track_id db_one, frame_ids = [1], kp = [1 \<mapsto> ([5], [6])]\<rparr> \<and>
   dom (tracks db_two) = insert (db_track_id db_one) (dom (tracks db_one)) \<and>
   track_ids db_two = map int [0..<length [call_zero] + 1]"
proof -
  have e: "extend_tracks 1 ([], []) ([], []) db_one =
     Inr (db_one\<lparr>tracks := (tracks db_one)(1 \<mapsto> \<lparr>track_id = 1, frame_ids = [1],
                                                   kp = [1 \<mapsto> ([], [])]\<rparr>),
                 db_frame_ids := [0, 1], track_ids := [0, 1], db_track_id := 2\<rparr>)"
    by (simp add: extend_tracks_def db_one_def get_new_id_def add_new_track_def
        has_frame_def supported_def)
  have l: "length (fst ([]::nat list, []::nat list)) \<le> length (fst ([]::nat list, []::nat list))"
    "length (fst ([]::nat list, []::nat list)) \<le> length (snd ([]::nat list, []::nat list))"
    by simp_all
  from extend_tracks_one_new_track [OF run_one, of "([], [])" "([], [])" 1] l
  have ex: "\<exists>db'. extend_tracks 1 ([], []) ([], []) db_one = Inr db'" by blast
  from extend_tracks_one_new_track [OF run_one, of "([3], [4])" "([5], [6])" 1] extend_second
  have "db_track_id db_one = int (length [call_zero]) \<and>
   db_track_id db_two = db_track_id db_one + 1 \<and>
   tracks db_one (db_track_id db_one) = None \<and>
   tracks db_two (db_track_id db_one) =
     Some \<lparr>track_id = db_track_id db_one, frame_ids = [1], kp = [1 \<mapsto> ([5], [6])]\<rparr> \<and>
   dom (tracks db_two) = insert (db_track_id db_one) (dom (tracks db_one)) \<and>
   track_ids db_two = map int [0..<length [call_zero] + 1]"
    by blast
  with run_one l ex e extend_second show ?thesis by blast
qed

subsection \<open>Tracks at a frame\<close>

lemma add_new_track_ids:
  "set (track_ids db) = dom (tracks db) \<Longrightarrow>
     set (track_ids (add_new_track t db)) = dom (tracks (add_new_track t db))"
  by (simp add: add_new_track_def)

lemma store_ok_ids: "store_ok db \<Longrightarrow> set (track_ids db) = dom (tracks db)"
  by (simp add: store_ok_def)

text \<open>
  Claim C6: when the id list of the store names exactly the stored tracks (as in every
  store the methods of the class build), \<^verbatim>\<open>get_track_ids\<close> returns, as a list, exactly
  the ids of the tracks whose frame list contains the frame. For the store with track A
  on frames 0, 1, 2 and track B on frames 1, 2 this is A at frame 0 and A, B at frames
  1 and 2, as the witness evaluates.
\<close>

theorem get_track_ids_exact:
  assumes "set (track_ids db) = dom (tracks db)"
  shows "\<exists>ids. get_track_ids db f = Inr ids \<and>
           set ids = {tid. \<exists>t. tracks db tid = Some t \<and> f \<in> set (frame_ids t)}"
proof -
  have "\<forall>x\<in>set (track_ids db). \<exists>b. has_frame db f x = Inr b"
    using assms by (auto simp: has_frame_def split: option.splits)
  from filter_err_total [OF this]
  have "get_track_ids db f = Inr (filter (\<lambda>x. has_frame db f x = Inr True) (track_ids db))"
    by (simp add: get_track_ids_def)
  moreover have "set (filter (\<lambda>x. has_frame db f x = Inr True) (track_ids db)) =
      {tid. \<exists>t. tracks db tid = Some t \<and> f \<in> set (frame_ids t)}"
    using assms by (auto simp: has_frame_def split: option.splits)
  ultimately show ?thesis by simp
qed

lemma scenario_tracks:
  "tracks scenario_db = [0 \<mapsto> track_A, 1 \<mapsto> track_B]" "track_ids scenario_db = [0, 1]"
  by (simp_all add: scenario_db_def add_new_track_def TracksDB_init_def track_A_def track_B_def)

lemma scenario_frames:
  "get_track_ids scenario_db 0 = Inr [0]"
  "get_track_ids scenario_db 1 = Inr [0, 1]"
  "get_track_ids scenario_db 2 = Inr [0, 1]"
  by (simp_all add: get_track_ids_def has_frame_def scenario_tracks track_A_def track_B_def)

theorem get_track_ids_exact_witness:
  "set (track_ids scenario_db) = dom (tracks scenario_db) \<and>
   (\<exists>ids. get_track_ids scenario_db 1 = Inr ids \<and>
      set ids = {tid. \<exists>t. tracks scenario_db tid = Some t \<and> 1 \<in> set (frame_ids t)}) \<and>
   get_track_ids scenario_db 0 = Inr [0] \<and>
   get_track_ids scenario_db 1 = Inr [0, 1] \<and>
   get_track_ids scenario_db 2 = Inr [0, 1]"
proof -
  have h: "set (track_ids scenario_db) = dom (tracks scenario_db)"
    by (auto simp: scenario_tracks)
  from get_track_ids_exact [OF h, of 1] h scenario_frames show ?thesis by blast
qed

subsection \<open>Observation lookup\<close>

lemma get_feature_locations_never_observation:
  "get_feature_locations db f tid \<noteq> Inr (Some obs)"
  by (simp add: get_feature_locations_def Let_def split: option.splits)

lemma get_feature_locations_absent:
  "tracks db tid = Some t \<Longrightarrow> f \<notin> set (frame_ids t) \<Longrightarrow>
     get_feature_locations db f tid = Inr None"
  by (simp add: get_feature_locations_def)

text \<open>
  Claim C1: the observation lookup returns the stored triplet \<^verbatim>\<open>(xl, xr, y)\<close> when the
  frame is in the frame list of the track. The code does not: in the store built by
  \<^verbatim>\<open>extend_tracks(0, ([1], [2]), ([3], [4]))\<close>, track 0 has frame 0, and
  \<^verbatim>\<open>get_feature_locations(0, 0)\<close> raises AttributeError, since the entry it reads is
  the stored pair of arrays. (No call returns an observation at all, and a frame outside
  the frame list gives \<open>None\<close>, as the two lemmas before this one show.)
\<close>

theorem get_feature_locations_raises:
  "get_feature_locations db_one 0 0 = Inl AttributeError"
  by (simp add: get_feature_locations_def db_one_def index_of_def)

subsection \<open>What \<^verbatim>\<open>extend_tracks\<close> puts into the new track\<close>

text \<open>
  Claim C2: only the correspondences that no existing track absorbed go into the new
  track. The code does not filter: the second call below extends track 0 by the
  correspondence \<open>(5, 6)\<close> at frame 1, and the new track 1 holds the same
  correspondence \<open>(5, 6)\<close> at frame 1.
\<close>

theorem extend_tracks_duplicates_absorbed:
  "extend_tracks 1 ([3], [4]) ([5], [6]) db_one = Inr db_two \<and>
   map_option (\<lambda>t. (frame_ids t, kp t 1)) (tracks db_two 0) = Some ([0, 1], Some ([5], [6])) \<and>
   map_option (\<lambda>t. (frame_ids t, kp t 1)) (tracks db_two 1) = Some ([1], Some ([5], [6]))"
  using extend_second by (simp add: db_two_def)

section \<open>Properties of the pose composition\<close>

subsection \<open>Relative to absolute poses\<close>

lemma compose_loop_cameras:
  assumes "compose_loop cmp tf zs (bc, bi, ap, ac, ai) = (bc', bi', ap', ac', ai')"
    and "ac \<noteq> []" and "last ac = bc"
  shows "length ac' = length ac + length zs \<and> take (length ac) ac' = ac \<and>
         (\<forall>i. length ac \<le> i \<and> i < length ac' \<longrightarrow>
            ac' ! i = cmp (ac' ! (i - 1)) (fst (zs ! (i - length ac))))"
  using assms
proof (induction zs arbitrary: bc bi ap ac ai)
  case Nil
  then show ?case by auto
next
  case (Cons z zs)
  obtain c p q where z: "z = (c, p, q)" by (cases z) auto
  let ?ac = "ac @ [cmp bc c]"
  from Cons.prems(1) have run: "compose_loop cmp tf zs
      (cmp bc c, cmp bi q, ap @ map (tf (cmp bc c)) p, ?ac, ai @ [cmp bi q])
      = (bc', bi', ap', ac', ai')"
    by (simp add: z Let_def)
  have "?ac \<noteq> []" "last ?ac = cmp bc c" by simp_all
  from Cons.IH [OF run this]
  have len: "length ac' = length ?ac + length zs" and tk: "take (length ?ac) ac' = ?ac"
    and step: "\<forall>i. length ?ac \<le> i \<and> i < length ac' \<longrightarrow>
            ac' ! i = cmp (ac' ! (i - 1)) (fst (zs ! (i - length ?ac)))"
    by auto
  have pre: "ac' ! j = ?ac ! j" if "j < length ?ac" for j
  proof -
    have "ac' ! j = take (length ?ac) ac' ! j" using that by simp
    then show ?thesis by (simp only: tk)
  qed
  have tk1: "take (length ac) ac' = ac"
  proof -
    have "take (length ac) ac' = take (length ac) (take (length ?ac) ac')" by simp
    then show ?thesis by (simp only: tk) simp
  qed
  have here: "ac' ! length ac = cmp (ac' ! (length ac - 1)) c"
  proof -
    have "ac' ! length ac = cmp bc c" using pre [of "length ac"] by simp
    moreover have "ac' ! (length ac - 1) = last ac"
      using pre [of "length ac - 1"] Cons.prems(2) by (simp add: nth_append last_conv_nth)
    ultimately show ?thesis using Cons.prems(3) by simp
  qed
  have "ac' ! i = cmp (ac' ! (i - 1)) (fst ((z # zs) ! (i - length ac)))"
    if i: "length ac \<le> i" "i < length ac'" for i
  proof (cases "i = length ac")
    case True
    with here show ?thesis by (simp add: z)
  next
    case False
    with i have "length ?ac \<le> i" by simp
    with step i(2) have "ac' ! i = cmp (ac' ! (i - 1)) (fst (zs ! (i - length ?ac)))" by blast
    moreover have "(z # zs) ! (i - length ac) = zs ! (i - length ?ac)"
      using False i(1) by (simp add: nth_Cons')
    ultimately show ?thesis by simp
  qed
  with len tk1 show ?case by simp
qed

text \<open>
  Claim C7 (composition law): for non-empty pose lists the function returns, the first
  absolute pose is the first camera, and every later absolute pose is the absolute pose
  before it composed with the relative pose of its window:
  \<open>abs_cameras ! i = compose (abs_cameras ! (i - 1)) (cameras ! i)\<close>; for three keyframes
  this is the law at \<open>i = 2\<close>. The loop runs over \<^verbatim>\<open>zip\<close>, so the number of absolute
  poses is one more than the shortest of the three zipped lists.
\<close>

theorem relative_to_absolute_poses_composition:
  assumes "cameras \<noteq> []" and "init_cams \<noteq> []"
  shows "\<exists>abs_cameras abs_points abs_init.
           relative_to_absolute_poses compose transformFrom cameras points init_cams
             = Inr (abs_cameras, abs_points, abs_init) \<and>
           length abs_cameras =
             1 + min (length cameras - 1) (min (length points) (length init_cams - 1)) \<and>
           abs_cameras ! 0 = cameras ! 0 \<and>
           (\<forall>i. 0 < i \<and> i < length abs_cameras \<longrightarrow>
              abs_cameras ! i = compose (abs_cameras ! (i - 1)) (cameras ! i))"
proof -
  from assms obtain c0 cs i0 is' where cam: "cameras = c0 # cs" and ini: "init_cams = i0 # is'"
    by (cases cameras; cases init_cams) auto
  define zs where "zs = zip cs (zip points is')"
  obtain bc bi ap ac ai where
    run: "compose_loop compose transformFrom zs (c0, i0, [], [c0], [i0]) = (bc, bi, ap, ac, ai)"
    by (metis prod_cases5)
  have "[c0] \<noteq> []" "last [c0] = c0" by simp_all
  from compose_loop_cameras [OF run this]
  have len: "length ac = 1 + length zs" and tk: "take 1 ac = [c0]"
    and step: "\<forall>i. 1 \<le> i \<and> i < length ac \<longrightarrow>
                 ac ! i = compose (ac ! (i - 1)) (fst (zs ! (i - 1)))"
    by auto
  have res: "relative_to_absolute_poses compose transformFrom cameras points init_cams
      = Inr (ac, ap, ai)"
    using run by (simp add: relative_to_absolute_poses_def cam ini zs_def)
  have l: "length ac = 1 + min (length cameras - 1) (min (length points) (length init_cams - 1))"
    by (simp add: len zs_def cam ini)
  have z: "ac ! 0 = cameras ! 0"
  proof -
    have "ac ! 0 = take 1 ac ! 0" by simp
    then show ?thesis by (simp only: tk) (simp add: cam)
  qed
  have s: "ac ! i = compose (ac ! (i - 1)) (cameras ! i)" if i: "0 < i" "i < length ac" for i
  proof -
    from i len have "i - 1 < length zs" by simp
    then have "fst (zs ! (i - 1)) = cs ! (i - 1)" by (simp add: zs_def)
    moreover from i have "cameras ! i = cs ! (i - 1)" by (simp add: cam nth_Cons split: nat.splits)
    moreover from step i have "ac ! i = compose (ac ! (i - 1)) (fst (zs ! (i - 1)))" by simp
    ultimately show ?thesis by simp
  qed
  from res l z s show ?thesis by blast
qed

theorem relative_to_absolute_poses_composition_witness:
  "[1::int, 10, 100] \<noteq> [] \<and> [0::int, 5, 7] \<noteq> [] \<and>
   relative_to_absolute_poses (+) (+) [1::int, 10, 100] [[1, 2], [3]] [0, 5, 7]
     = Inr ([1, 11, 111], [12, 13, 114], [0, 5, 12]) \<and>
   (\<exists>abs_cameras abs_points abs_init.
           relative_to_absolute_poses (+) (+) [1::int, 10, 100] [[1, 2], [3]] [0, 5, 7]
             = Inr (abs_cameras, abs_points, abs_init) \<and>
           length abs_cameras =
             1 + min (length [1::int, 10, 100] - 1)
                   (min (length [[1::int, 2], [3]]) (length [0::int, 5, 7] - 1)) \<and>
           abs_cameras ! 0 = [1::int, 10, 100] ! 0 \<and>
           (\<forall>i. 0 < i \<and> i < length abs_cameras \<longrightarrow>
              abs_cameras ! i = abs_cameras ! (i - 1) + [1::int, 10, 100] ! i))"
proof -
  have a: "[1::int, 10, 100] \<noteq> []" and b: "[0::int, 5, 7] \<noteq> []" by simp_all
  have e: "relative_to_absolute_poses (+) (+) [1::int, 10, 100] [[1, 2], [3]] [0, 5, 7]
     = Inr ([1, 11, 111], [12, 13, 114], [0, 5, 12])"
    by (simp add: relative_to_absolute_poses_def)
  from relative_to_absolute_poses_composition [OF a b, of "(+)" "(+)" "[[1, 2], [3]]"] a b e
  show ?thesis by blast
qed

end
